theory Spec2Isabelle
  imports Main
begin

section \<open>The UIRobot driver (src/driver/UIRobot.ts)\<close>

text \<open>
  The driver forwards property writes to a remote agent as text lines over a TCP socket.
  Its methods are embedded as state transformers on a record that holds the fields of the
  class together with the observable state of its collaborators: the socket (connection
  flag, lines written, wake-on-LAN requests), the host's change notifications, the console
  and the host's timer facility.
\<close>

subsection \<open>The JavaScript values the driver computes with\<close>

text \<open>
  The driver is TypeScript, but what runs is JavaScript: an array read past its end gives
  \<open>undefined\<close>, a property read on an object literal also finds the members inherited
  from \<open>Object.prototype\<close>, and \<open>+\<close> concatenates as soon as one operand is not a
  number. The values that occur are strings, the numbers of the driver (all integers),
  \<open>undefined\<close>, \<open>NaN\<close> and the inherited members of an object literal (named by
  their property name). A string is the list of its characters; the separators the driver
  splits on (\<open>|\<close> and \<open>+\<close>) are single ASCII characters.
\<close>

datatype jsval = Undefined | NaN | Num int | Str string | Inherited string

definition dquote :: char where
  "dquote = CHR 0x22"

fun show_nat :: "nat \<Rightarrow> string" where
  "show_nat n =
     (if n < 10 then [''0123456789'' ! n]
      else show_nat (n div 10) @ [''0123456789'' ! (n mod 10)])"

declare show_nat.simps [simp del]

definition show_int :: "int \<Rightarrow> string" where
  "show_int i = (if i < 0 then CHR ''-'' # show_nat (nat (- i)) else show_nat (nat i))"

text \<open>
  The members every object literal inherits, each with the text its value converts to.
  The seven functions of ECMAScript 5.1 (15.2.4) and the accessors of Annex B; the text
  of a built-in function is the engine's, here in the usual \<open>[native code]\<close> form.
\<close>

definition nativeFunction :: "string \<Rightarrow> string" where
  "nativeFunction name = ''function '' @ name @ ''() { [native code] }''"

definition objectPrototype :: "(string \<times> string) list" where
  "objectPrototype =
     [(''constructor'', nativeFunction ''Object''),
      (''toString'', nativeFunction ''toString''),
      (''toLocaleString'', nativeFunction ''toLocaleString''),
      (''valueOf'', nativeFunction ''valueOf''),
      (''hasOwnProperty'', nativeFunction ''hasOwnProperty''),
      (''isPrototypeOf'', nativeFunction ''isPrototypeOf''),
      (''propertyIsEnumerable'', nativeFunction ''propertyIsEnumerable''),
      (''__proto__'', ''[object Object]''),
      (''__defineGetter__'', nativeFunction ''__defineGetter__''),
      (''__defineSetter__'', nativeFunction ''__defineSetter__''),
      (''__lookupGetter__'', nativeFunction ''__lookupGetter__''),
      (''__lookupSetter__'', nativeFunction ''__lookupSetter__'')]"

text \<open>
  ToString, as string concatenation applies it. A number prints as its decimal digits,
  which is what JavaScript prints for a whole number of magnitude below \<open>10^21\<close>
  (from there on it prints an exponent); the numbers the driver itself computes (button
  masks, 1 and 2, sums of modifier values) stay far below that.
\<close>

fun toString :: "jsval \<Rightarrow> string" where
  "toString Undefined = ''undefined''"
| "toString NaN = ''NaN''"
| "toString (Num i) = show_int i"
| "toString (Str s) = s"
| "toString (Inherited name) =
     (case map_of objectPrototype name of Some t \<Rightarrow> t | None \<Rightarrow> ''undefined'')"

text \<open>ToBoolean: what \<open>if (v)\<close>, \<open>!!v\<close> and \<open>v || w\<close> test.\<close>

fun truthy :: "jsval \<Rightarrow> bool" where
  "truthy Undefined = False"
| "truthy NaN = False"
| "truthy (Num i) = (i \<noteq> 0)"
| "truthy (Str s) = (s \<noteq> [])"
| "truthy (Inherited name) = True"

definition js_or :: "jsval \<Rightarrow> jsval \<Rightarrow> jsval" where
  "js_or v w = (if truthy v then v else w)"

text \<open>
  The operator \<open>+\<close>: numeric on two numbers, \<open>NaN\<close> when \<open>undefined\<close> or \<open>NaN\<close>
  meets a number, and concatenation of the two texts as soon as one operand is a string
  or an object.
\<close>

fun is_text :: "jsval \<Rightarrow> bool" where
  "is_text (Str s) = True"
| "is_text (Inherited name) = True"
| "is_text v = False"

definition js_plus :: "jsval \<Rightarrow> jsval \<Rightarrow> jsval" where
  "js_plus v w =
     (if is_text v \<or> is_text w then Str (toString v @ toString w)
      else (case (v, w) of (Num a, Num b) \<Rightarrow> Num (a + b) | _ \<Rightarrow> NaN))"

text \<open>\<open>String.prototype.split\<close> on a one-character separator: never an empty array.\<close>

fun split :: "char \<Rightarrow> string \<Rightarrow> string list" where
  "split c [] = [[]]"
| "split c (x # xs) =
     (if x = c then [] # split c xs
      else (case split c xs of w # ws \<Rightarrow> (x # w) # ws | [] \<Rightarrow> [[x]]))"

text \<open>Reading \<open>xs[i]\<close>: \<open>undefined\<close> past the end.\<close>

definition index :: "string list \<Rightarrow> nat \<Rightarrow> jsval" where
  "index xs i = (if i < length xs then Str (xs ! i) else Undefined)"

text \<open>\<open>Array.prototype.slice(a, b)\<close> for \<open>0 \<le> a\<close>, \<open>0 \<le> b\<close>; \<open>slice_from a\<close> is \<open>slice(a)\<close>.\<close>

definition slice :: "nat \<Rightarrow> nat \<Rightarrow> 'a list \<Rightarrow> 'a list" where
  "slice a b xs = drop a (take b xs)"

definition slice_from :: "nat \<Rightarrow> 'a list \<Rightarrow> 'a list" where
  "slice_from a xs = drop a xs"

text \<open>\<open>Array.prototype.join\<close>: \<open>undefined\<close> elements give the empty text.\<close>

fun joinText :: "jsval \<Rightarrow> string" where
  "joinText Undefined = []"
| "joinText v = toString v"

fun join :: "string \<Rightarrow> jsval list \<Rightarrow> string" where
  "join sep [] = []"
| "join sep [v] = joinText v"
| "join sep (v # w # ws) = joinText v @ sep @ join sep (w # ws)"

subsection \<open>Program specifications\<close>

record ProgramParams =
  program :: string
  workingDir :: string
  arguments :: "string list"

text \<open>\<open>static quote(str)\<close>: \<open>'"' + str + '"'\<close>, whatever \<open>str\<close> is at run time.\<close>

definition quote :: "jsval \<Rightarrow> string" where
  "quote str = toString (js_plus (js_plus (Str [dquote]) str) (Str [dquote]))"

text \<open>
  \<open>parseProgramParams\<close>: \<open>None\<close> is the \<open>undefined\<close> the method returns for a
  missing or empty parameter.
\<close>

definition parseProgramParams :: "jsval \<Rightarrow> ProgramParams option" where
  "parseProgramParams programParams =
     (if truthy programParams then
        (let params = split (CHR ''|'') (toString programParams) in
         Some \<lparr> program = quote (index params 0),
                workingDir = toString (js_or (Str (quote (index params 1))) (Str ''/'')),
                arguments = slice_from 2 params \<rparr>)
      else None)"

subsection \<open>The session state\<close>

text \<open>
  The events of the host's timer facility, in the order they happen: a timer is created
  (handle, due time), cancelled (handle) or fires (handle, time).
\<close>

datatype timer_event = Created nat nat | Cancelled nat | Fired nat nat

record session =
  \<comment> \<open>the private fields of the class\<close>
  mLeftDown :: bool
  mRightDown :: bool
  mProgramParams :: string
  mCurrentKeys :: string
  mKeyRlsTimer :: "nat option"
  \<comment> \<open>the socket: \<open>connected\<close>, the lines given to \<open>sendText\<close>, calls of \<open>wakeOnLAN\<close>\<close>
  connected :: bool
  sent :: "string list"
  wakeOnLAN :: nat
  \<comment> \<open>the host: property names given to \<open>changed\<close>, lines of \<open>console.log\<close>\<close>
  notified :: "string list"
  console :: "string list"
  \<comment> \<open>the timer facility: clock, live timers (handle, due time), next handle, event log\<close>
  now :: nat
  timers :: "(nat \<times> nat) list"
  nextTimer :: nat
  timerLog :: "timer_event list"

definition kPowerDownProgram :: string where
  "kPowerDownProgram = ''C:/Windows/System32/shutdown.exe||/s /f /t 0''"

text \<open>
  \<open>changed\<close> is the host's change notification (inherited from the driver base class);
  what is observable of it is the property name it was given.
\<close>

definition changed :: "string \<Rightarrow> session \<Rightarrow> session" where
  "changed name s = s\<lparr>notified := notified s @ [name]\<rparr>"

definition onConnectStateChanged :: "bool \<Rightarrow> session \<Rightarrow> session" where
  "onConnectStateChanged c s =
     changed ''power'' (if \<not> c then s\<lparr>mProgramParams := []\<rparr> else s)"

text \<open>
  The constructor, for a socket whose connection flag is \<open>c\<close>: the fields take the
  values of their initialisers (\<open>fields0\<close>), the socket is configured (line length,
  wake-on-LAN, auto-connect: calls that leave nothing to observe here), the listener
  below is subscribed, and an already connected socket is announced at once.
\<close>

definition fields0 :: "bool \<Rightarrow> session" where
  "fields0 c =
     \<lparr> mLeftDown = False, mRightDown = False, mProgramParams = [], mCurrentKeys = [],
       mKeyRlsTimer = None, connected = c, sent = [], wakeOnLAN = 0, notified = [],
       console = [], now = 0, timers = [], nextTimer = 0, timerLog = [] \<rparr>"

definition constructor :: "bool \<Rightarrow> session" where
  "constructor c = (if c then onConnectStateChanged True (fields0 c) else fields0 c)"

text \<open>
  The listener subscribed to the socket's \<open>connect\<close> event; \<open>sender.connected\<close> is
  the socket's flag at that moment.
\<close>

definition connectListener :: "string \<Rightarrow> session \<Rightarrow> session" where
  "connectListener messageType s =
     (if messageType = ''Connection'' then onConnectStateChanged (connected s) s else s)"

subsection \<open>Sending commands\<close>

definition sendCommand :: "string \<Rightarrow> jsval list \<Rightarrow> session \<Rightarrow> session" where
  "sendCommand command args s =
     (let line = command @ '' '' @ join '' '' args in
      s\<lparr> console := console s @ [''-------------command '' @ line],
         sent := sent s @ [line] \<rparr>)"

definition sendMouseButtonState :: "int \<Rightarrow> bool \<Rightarrow> session \<Rightarrow> session" where
  "sendMouseButtonState buttonMask down s =
     sendCommand ''MousePress'' [Num buttonMask, Num (if down then 1 else 2)] s"

definition leftDown_set :: "bool \<Rightarrow> session \<Rightarrow> session" where
  "leftDown_set v s =
     (if mLeftDown s \<noteq> v then sendMouseButtonState 1024 v (s\<lparr>mLeftDown := v\<rparr>) else s)"

definition rightDown_set :: "bool \<Rightarrow> session \<Rightarrow> session" where
  "rightDown_set v s =
     (if mRightDown s \<noteq> v then sendMouseButtonState 4096 v (s\<lparr>mRightDown := v\<rparr>) else s)"

text \<open>\<open>moveMouse\<close>, for whole-numbered distances of magnitude below \<open>10^21\<close>.\<close>

definition moveMouse :: "int \<Rightarrow> int \<Rightarrow> session \<Rightarrow> session" where
  "moveMouse x y s = sendCommand ''MouseMove'' [Num x, Num y] s"

subsection \<open>The program property\<close>

definition program_get :: "session \<Rightarrow> string" where
  "program_get s = mProgramParams s"

definition program_set :: "string \<Rightarrow> session \<Rightarrow> session" where
  "program_set programParams s =
     (let s1 = (case parseProgramParams (Str (mProgramParams s)) of
                  Some runningProgram \<Rightarrow>
                    sendCommand ''Terminate'' [Str (program runningProgram)] s
                | None \<Rightarrow> s)
      in case parseProgramParams (Str programParams) of
           Some newProgram \<Rightarrow>
             sendCommand ''Launch''
               (Str (workingDir newProgram) # Str (program newProgram)
                  # map Str (arguments newProgram))
               (s1\<lparr>mProgramParams := programParams\<rparr>)
         | None \<Rightarrow> s1\<lparr>mProgramParams := []\<rparr>)"

subsection \<open>The power property\<close>

definition power_set :: "bool \<Rightarrow> session \<Rightarrow> session" where
  "power_set pwr s =
     (if pwr then
        (if \<not> connected s then s\<lparr>wakeOnLAN := wakeOnLAN s + 1\<rparr> else s)
      else program_set kPowerDownProgram s)"

definition power_get :: "session \<Rightarrow> bool" where
  "power_get s = (connected s \<and> program_get s \<noteq> kPowerDownProgram)"

subsection \<open>The host's timers\<close>

text \<open>
  Modelled from the spec: the host's \<open>wait\<close> and the \<open>CancelablePromise\<close> it returns
  are not part of the driver's source. The spec describes "a scoped, cancelable delayed
  action", "a fire-once scheduled callback" in a "single-threaded, event-driven" host:
  \<open>wait ms\<close> creates a timer due \<open>ms\<close> time units from now, \<open>cancel\<close> removes a
  live timer (and does nothing to one that has fired or was cancelled), and a live timer
  fires once when the clock reaches its due time, running the callback given to
  \<open>then\<close>. The clock advances in whole time units.
\<close>

definition wait :: "nat \<Rightarrow> session \<Rightarrow> nat \<times> session" where
  "wait ms s =
     (nextTimer s,
      s\<lparr> timers := timers s @ [(nextTimer s, now s + ms)],
         nextTimer := nextTimer s + 1,
         timerLog := timerLog s @ [Created (nextTimer s) (now s + ms)] \<rparr>)"

definition cancel :: "nat \<Rightarrow> session \<Rightarrow> session" where
  "cancel h s =
     (if h \<in> set (map fst (timers s))
      then s\<lparr> timers := filter (\<lambda>t. fst t \<noteq> h) (timers s),
              timerLog := timerLog s @ [Cancelled h] \<rparr>
      else s)"

subsection \<open>The keyDown property\<close>

text \<open>
  Reading \<open>modifierValues[modifier]\<close> on the object literal of the setter: its own five
  properties, else a member inherited from \<open>Object.prototype\<close>, else \<open>undefined\<close>.
\<close>

definition modifierTable :: "(string \<times> int) list" where
  "modifierTable =
     [(''shift'', 1), (''control'', 2), (''alt'', 4), (''altgr'', 8), (''meta'', 16)]"

definition modifierValues :: "string \<Rightarrow> jsval" where
  "modifierValues modifier =
     (case map_of modifierTable modifier of
        Some n \<Rightarrow> Num n
      | None \<Rightarrow> (if modifier \<in> set (map fst objectPrototype) then Inherited modifier
                 else Undefined))"

definition keyDown_get :: "session \<Rightarrow> string" where
  "keyDown_get s = mCurrentKeys s"

definition keyDown_set :: "string \<Rightarrow> session \<Rightarrow> session" where
  "keyDown_set keys s =
     (let s1 = s\<lparr>mCurrentKeys := keys\<rparr> in
      if truthy (Str (mCurrentKeys s1)) then
        (let keyPresses = split (CHR ''+'') keys;
             key = index keyPresses (length keyPresses - 1);
             modifierSum =
               (if length keyPresses > 1 then
                  fold (\<lambda>modifier sum. js_plus sum (js_or (modifierValues modifier) (Num 0)))
                    (slice 0 (length keyPresses - 1) keyPresses) (Num 0)
                else Num 0);
             s2 = sendCommand ''KeyPress'' [key, modifierSum] s1;
             s3 = (case mKeyRlsTimer s2 of Some t \<Rightarrow> cancel t s2 | None \<Rightarrow> s2);
             (t, s4) = wait 200 s3
         in s4\<lparr>mKeyRlsTimer := Some t\<rparr>)
      else s1)"

text \<open>The callback the setter gives to \<open>then\<close>.\<close>

definition keyRelease :: "session \<Rightarrow> session" where
  "keyRelease s = (keyDown_set [] s)\<lparr>mKeyRlsTimer := None\<rparr>"

text \<open>
  Modelled from the spec: how the host fires a timer and how time passes are not part of
  the driver's source either. A live timer fires "once": it leaves the live timers and
  the callback given to \<open>then\<close> runs to its end, as the host is "single-threaded".
  When one time unit passes, the clock moves and the timers that are due fire; a timer
  that was cancelled is no longer among them.
\<close>

definition fire :: "nat \<Rightarrow> session \<Rightarrow> session" where
  "fire h s =
     (if h \<in> set (map fst (timers s))
      then keyRelease (s\<lparr> timers := filter (\<lambda>t. fst t \<noteq> h) (timers s),
                         timerLog := timerLog s @ [Fired h (now s)] \<rparr>)
      else s)"

definition tick :: "session \<Rightarrow> session" where
  "tick s =
     (let s1 = s\<lparr>now := now s + 1\<rparr> in
      fold fire (map fst (filter (\<lambda>t. snd t \<le> now s1) (timers s1))) s1)"

primrec advance :: "nat \<Rightarrow> session \<Rightarrow> session" where
  "advance 0 s = s"
| "advance (Suc n) s = advance n (tick s)"

subsection \<open>Runs of a session\<close>

text \<open>
  What can happen to a session: a property write or a call by the host, a message on the
  socket's \<open>connect\<close> subscription, a change of the socket's connection flag, or the
  passing of one time unit.
\<close>

datatype action =
    SetPower bool
  | SetLeftDown bool
  | SetRightDown bool
  | MoveMouse int int
  | SetProgram string
  | SetKeyDown string
  | ConnectMessage string
  | SocketConnected bool
  | Tick

fun exec :: "action \<Rightarrow> session \<Rightarrow> session" where
  "exec (SetPower b) s = power_set b s"
| "exec (SetLeftDown b) s = leftDown_set b s"
| "exec (SetRightDown b) s = rightDown_set b s"
| "exec (MoveMouse x y) s = moveMouse x y s"
| "exec (SetProgram p) s = program_set p s"
| "exec (SetKeyDown k) s = keyDown_set k s"
| "exec (ConnectMessage t) s = connectListener t s"
| "exec (SocketConnected c) s = s\<lparr>connected := c\<rparr>"
| "exec Tick s = tick s"

inductive reachable :: "session \<Rightarrow> bool" where
  start: "reachable (constructor c)"
| step: "reachable s \<Longrightarrow> reachable (exec a s)"

text \<open>
  The timer field and the live timers agree: no reference and no live timer, or a
  reference to the one live timer, which is due within the next 200 time units.
\<close>

definition timer_ok :: "session \<Rightarrow> bool" where
  "timer_ok s =
     (case mKeyRlsTimer s of
        None \<Rightarrow> timers s = []
      | Some h \<Rightarrow>
          (case timers s of
             [t] \<Rightarrow> fst t = h \<and> h < nextTimer s \<and> now s < snd t \<and> snd t \<le> now s + 200
           | _ \<Rightarrow> False))"

section \<open>Properties\<close>

subsection \<open>Strings, arrays and parsing\<close>

lemma split_not_Nil: "split c s \<noteq> []"
  by (induction s) (auto split: list.splits)

lemma quote_Str: "quote (Str s) = dquote # s @ [dquote]"
  by (simp add: quote_def js_plus_def)

lemma quote_Undefined: "quote Undefined = dquote # ''undefined'' @ [dquote]"
  by (simp add: quote_def js_plus_def)

lemma quote_index:
  "quote (index xs i) =
     dquote # (if i < length xs then xs ! i else ''undefined'') @ [dquote]"
  by (simp add: index_def quote_Str quote_Undefined)

lemma quote_index_not_Nil: "quote (index xs i) \<noteq> []"
  by (simp add: quote_index)

lemma index_split_0: "index (split c s) 0 = Str (hd (split c s))"
  using split_not_Nil [of c s] by (simp add: index_def hd_conv_nth)

text \<open>
  What the parser returns: nothing for the empty string, and for every other string a
  specification whose working directory is the quoted second segment. The quoted text
  is never empty, so the alternative \<open>'/'\<close> of the source is never taken.
\<close>

lemma parseProgramParams_Str:
  "parseProgramParams (Str p) =
     (if p = [] then None
      else Some \<lparr> program = dquote # hd (split (CHR ''|'') p) @ [dquote],
                  workingDir =
                    dquote # (if 1 < length (split (CHR ''|'') p) then split (CHR ''|'') p ! 1
                              else ''undefined'') @ [dquote],
                  arguments = drop 2 (split (CHR ''|'') p) \<rparr>)"
  by (simp add: parseProgramParams_def Let_def js_or_def quote_index_not_Nil
      slice_from_def quote_index split_not_Nil hd_conv_nth)

lemma workingDir_never_default:
  "parseProgramParams v = Some ps \<Longrightarrow> workingDir ps \<noteq> ''/''"
  by (auto simp: parseProgramParams_def Let_def js_or_def quote_index_not_Nil index_def
      quote_Str quote_Undefined dquote_def split: if_splits)

lemma join_Str: "join sep (Str a # map Str as) = a @ concat (map ((@) sep) as)"
  by (induction as arbitrary: a) simp_all

subsection \<open>Commands of the program setter\<close>

lemma sent_sendCommand:
  "sent (sendCommand c args s) = sent s @ [c @ '' '' @ join '' '' args]"
  by (simp add: sendCommand_def Let_def)

lemma mProgramParams_sendCommand:
  "mProgramParams (sendCommand c args s) = mProgramParams s"
  by (simp add: sendCommand_def Let_def)

lemma mProgramParams_program_set: "mProgramParams (program_set p s) = p"
  by (simp add: program_set_def parseProgramParams_Str Let_def mProgramParams_sendCommand
      split: option.splits)

lemma sent_program_set:
  "sent (program_set p s) =
     sent s
     @ (if mProgramParams s = [] then []
        else [''Terminate '' @ dquote # hd (split (CHR ''|'') (mProgramParams s)) @ [dquote]])
     @ (if p = [] then []
        else [''Launch ''
                @ dquote # (if 1 < length (split (CHR ''|'') p) then split (CHR ''|'') p ! 1
                            else ''undefined'') @ [dquote]
                @ '' '' @ dquote # hd (split (CHR ''|'') p) @ [dquote]
                @ concat (map ((@) '' '') (drop 2 (split (CHR ''|'') p)))])"
  by (simp add: program_set_def parseProgramParams_Str Let_def sent_sendCommand join_Str
      sendCommand_def)

lemma constructor_eq:
  "constructor c =
     \<lparr> mLeftDown = False, mRightDown = False, mProgramParams = [], mCurrentKeys = [],
       mKeyRlsTimer = None, connected = c, sent = [], wakeOnLAN = 0,
       notified = (if c then [''power''] else []), console = [], now = 0, timers = [],
       nextTimer = 0, timerLog = [] \<rparr>"
  by (simp add: constructor_def onConnectStateChanged_def changed_def fields0_def)

text \<open>
  C1. The claim: an input whose second segment is absent or empty gives the working
  directory \<open>/\<close>, and the Launch command carries \<open>/\<close>. The code quotes the segment
  before it tests it, so the test never fails: for \<open>exe\<close> the working directory is the
  quoted text \<open>undefined\<close>, for \<open>exe||arg\<close> it is a pair of quotes, and these are
  what the Launch lines carry; so does the Launch of \<open>kPowerDownProgram\<close>, whose
  second segment is empty.
\<close>

theorem workingDir_default_examples:
  "parseProgramParams (Str ''exe'') =
     Some \<lparr> program = dquote # ''exe'' @ [dquote],
            workingDir = dquote # ''undefined'' @ [dquote],
            arguments = [] \<rparr>
   \<and> parseProgramParams (Str ''exe||arg'') =
     Some \<lparr> program = dquote # ''exe'' @ [dquote],
            workingDir = [dquote, dquote],
            arguments = [''arg''] \<rparr>
   \<and> sent (program_set ''exe'' (constructor True)) =
       [''Launch '' @ dquote # ''undefined'' @ [dquote] @ '' '' @ dquote # ''exe'' @ [dquote]]
   \<and> sent (program_set ''exe||arg'' (constructor True)) =
       [''Launch '' @ [dquote, dquote] @ '' '' @ dquote # ''exe'' @ [dquote] @ '' arg'']
   \<and> sent (power_set False (constructor True)) =
       [''Launch '' @ [dquote, dquote] @ '' ''
          @ dquote # ''C:/Windows/System32/shutdown.exe'' @ [dquote] @ '' /s /f /t 0'']"
  by (simp add: parseProgramParams_Str sent_program_set quote_Str quote_Undefined index_def
      constructor_eq power_set_def kPowerDownProgram_def)

text \<open>
  C2. When the stored string parses to a running program and the new input parses to a
  specification, the setter writes exactly two lines, in this order: Terminate with the
  quoted executable of the running program, then Launch with the working directory, the
  quoted executable and the positional arguments of the new specification.
\<close>

theorem program_set_terminate_then_launch:
  assumes "parseProgramParams (Str (mProgramParams s)) = Some running"
    and "parseProgramParams (Str p) = Some new"
  shows "sent (program_set p s) =
           sent s @ [''Terminate '' @ dquote # hd (split (CHR ''|'') (mProgramParams s)) @ [dquote],
                     ''Launch ''
                        @ dquote # (if 1 < length (split (CHR ''|'') p) then split (CHR ''|'') p ! 1
                                    else ''undefined'') @ [dquote]
                        @ '' '' @ dquote # hd (split (CHR ''|'') p) @ [dquote]
                        @ concat (map ((@) '' '') (drop 2 (split (CHR ''|'') p)))]
         \<and> sent (program_set p s) =
           sent s @ [''Terminate '' @ program running,
                     ''Launch '' @ workingDir new @ '' '' @ program new
                        @ concat (map ((@) '' '') (arguments new))]
         \<and> program running = dquote # hd (split (CHR ''|'') (mProgramParams s)) @ [dquote]
         \<and> workingDir new =
             dquote # (if 1 < length (split (CHR ''|'') p) then split (CHR ''|'') p ! 1
                       else ''undefined'') @ [dquote]
         \<and> program new = dquote # hd (split (CHR ''|'') p) @ [dquote]
         \<and> arguments new = drop 2 (split (CHR ''|'') p)"
  using assms by (auto simp: parseProgramParams_Str sent_program_set split: if_splits)

theorem program_set_terminate_then_launch_witness:
  "parseProgramParams (Str (mProgramParams (program_set ''a|b'' (constructor True)))) =
     Some \<lparr> program = dquote # ''a'' @ [dquote], workingDir = dquote # ''b'' @ [dquote],
            arguments = [] \<rparr>
   \<and> parseProgramParams (Str ''c|d|e f|g'') =
     Some \<lparr> program = dquote # ''c'' @ [dquote], workingDir = dquote # ''d'' @ [dquote],
            arguments = [''e f'', ''g''] \<rparr>
   \<and> sent (program_set ''c|d|e f|g'' (program_set ''a|b'' (constructor True))) =
       [''Launch '' @ dquote # ''b'' @ [dquote] @ '' '' @ dquote # ''a'' @ [dquote],
        ''Terminate '' @ dquote # ''a'' @ [dquote],
        ''Launch '' @ dquote # ''d'' @ [dquote] @ '' '' @ dquote # ''c'' @ [dquote]
           @ '' e f g'']"
proof -
  let ?s = "program_set ''a|b'' (constructor True)"
  let ?running =
    "\<lparr> program = dquote # ''a'' @ [dquote], workingDir = dquote # ''b'' @ [dquote],
       arguments = [] \<rparr>"
  let ?new =
    "\<lparr> program = dquote # ''c'' @ [dquote], workingDir = dquote # ''d'' @ [dquote],
       arguments = [''e f'', ''g''] \<rparr>"
  have stored: "mProgramParams ?s = ''a|b''"
    by (simp add: mProgramParams_program_set)
  have h1: "parseProgramParams (Str (mProgramParams ?s)) = Some ?running"
    by (simp add: stored parseProgramParams_Str)
  have h2: "parseProgramParams (Str ''c|d|e f|g'') = Some ?new"
    by (simp add: parseProgramParams_Str)
  have s0: "sent ?s =
      [''Launch '' @ dquote # ''b'' @ [dquote] @ '' '' @ dquote # ''a'' @ [dquote]]"
    by (simp add: sent_program_set constructor_eq)
  from program_set_terminate_then_launch [OF h1 h2]
  have "sent (program_set ''c|d|e f|g'' ?s) =
      sent ?s @ [''Terminate '' @ dquote # hd (split (CHR ''|'') (mProgramParams ?s)) @ [dquote],
                 ''Launch ''
                    @ dquote # (if 1 < length (split (CHR ''|'') ''c|d|e f|g'')
                                then split (CHR ''|'') ''c|d|e f|g'' ! 1
                                else ''undefined'') @ [dquote]
                    @ '' '' @ dquote # hd (split (CHR ''|'') ''c|d|e f|g'') @ [dquote]
                    @ concat (map ((@) '' '') (drop 2 (split (CHR ''|'') ''c|d|e f|g'')))]"
    by blast
  then have "sent (program_set ''c|d|e f|g'' ?s) =
       [''Launch '' @ dquote # ''b'' @ [dquote] @ '' '' @ dquote # ''a'' @ [dquote],
        ''Terminate '' @ dquote # ''a'' @ [dquote],
        ''Launch '' @ dquote # ''d'' @ [dquote] @ '' '' @ dquote # ''c'' @ [dquote]
           @ '' e f g'']"
    by (simp add: s0 stored)
  with h1 h2 show ?thesis by blast
qed

text \<open>
  C3. The power getter is true exactly when the socket is connected and the stored
  program string differs from \<open>kPowerDownProgram\<close>. No field holds the power value:
  whatever the other fields are set to, the getter returns the same.
\<close>

theorem power_get_derived:
  "power_get s = (connected s \<and> mProgramParams s \<noteq> kPowerDownProgram)
   \<and> power_get (s\<lparr> mLeftDown := a, mRightDown := b, mCurrentKeys := k, mKeyRlsTimer := r,
                     sent := l, wakeOnLAN := w, notified := n, console := c, now := t,
                     timers := ts, nextTimer := i, timerLog := lg \<rparr>) = power_get s"
  by (simp add: power_get_def program_get_def)

text \<open>
  C4. The claim: every malformed or empty input is normalised to "no program". The
  parser rejects the empty string only. The input \<open>|\<close>, which names no executable, is
  stored as it is and launched.
\<close>

theorem program_set_no_executable_example:
  "program_get (program_set ''|'' (constructor True)) = ''|''
   \<and> sent (program_set ''|'' (constructor True)) =
       [''Launch '' @ [dquote, dquote] @ '' '' @ [dquote, dquote]]"
  by (simp add: sent_program_set mProgramParams_program_set program_get_def quote_Str
      index_def constructor_eq)

text \<open>
  C4, as amended. For the empty input the stored string becomes empty and the only line
  written is the Terminate of a program that was running, if there was one. Every
  non-empty input is stored as it is, and its Launch line follows.
\<close>

theorem program_set_empty_only:
  "program_get (program_set [] s) = []
   \<and> sent (program_set [] s) =
       sent s @ (if mProgramParams s = [] then []
                 else [''Terminate ''
                         @ dquote # hd (split (CHR ''|'') (mProgramParams s)) @ [dquote]])
   \<and> (p \<noteq> [] \<longrightarrow>
        program_get (program_set p s) = p
        \<and> sent (program_set p s) =
            sent (program_set [] s)
            @ [''Launch ''
                 @ dquote # (if 1 < length (split (CHR ''|'') p) then split (CHR ''|'') p ! 1
                             else ''undefined'') @ [dquote]
                 @ '' '' @ dquote # hd (split (CHR ''|'') p) @ [dquote]
                 @ concat (map ((@) '' '') (drop 2 (split (CHR ''|'') p)))])"
  by (simp add: sent_program_set mProgramParams_program_set program_get_def)

theorem program_set_empty_only_witness:
  "program_get (program_set [] (program_set ''a|b'' (constructor True))) = []
   \<and> sent (program_set [] (program_set ''a|b'' (constructor True))) =
       [''Launch '' @ dquote # ''b'' @ [dquote] @ '' '' @ dquote # ''a'' @ [dquote],
        ''Terminate '' @ dquote # ''a'' @ [dquote]]
   \<and> ''|x'' \<noteq> []
   \<and> program_get (program_set ''|x'' (program_set ''a|b'' (constructor True))) = ''|x''"
  using program_set_empty_only [of "program_set ''a|b'' (constructor True)" "''|x''"]
  by (simp add: sent_program_set mProgramParams_program_set index_def constructor_eq)

text \<open>
  C7. A connection-state message on the socket's subscription raises a change
  notification for \<open>power\<close>; when the socket is then disconnected, the stored program
  string is reset and the program getter returns the empty string.
\<close>

theorem connection_event:
  "notified (connectListener ''Connection'' s) = notified s @ [''power'']
   \<and> (\<not> connected s \<longrightarrow> program_get (connectListener ''Connection'' s) = [])
   \<and> (connected s \<longrightarrow> program_get (connectListener ''Connection'' s) = program_get s)"
  by (simp add: connectListener_def onConnectStateChanged_def changed_def program_get_def)

theorem connection_event_witness:
  "\<not> connected (program_set ''a'' (constructor False))
   \<and> program_get (program_set ''a'' (constructor False)) = ''a''
   \<and> program_get (connectListener ''Connection'' (program_set ''a'' (constructor False))) = []
   \<and> notified (connectListener ''Connection'' (program_set ''a'' (constructor False))) =
       [''power'']"
  using connection_event [of "program_set ''a'' (constructor False)"]
  by (simp add: program_set_def parseProgramParams_Str Let_def sendCommand_def
      constructor_def fields0_def program_get_def)

text \<open>
  C8. Reading the program property after setting it to a non-empty string returns that
  string as it was given.
\<close>

theorem program_round_trip:
  "p \<noteq> [] \<Longrightarrow> program_get (program_set p s) = p"
  by (simp add: program_get_def mProgramParams_program_set)

theorem program_round_trip_witness:
  "''exe|dir|x y'' \<noteq> []
   \<and> program_get (program_set ''exe|dir|x y'' (constructor True)) = ''exe|dir|x y''"
  using program_round_trip [of "''exe|dir|x y''" "constructor True"] by simp

text \<open>
  C9. Setting power to true changes nothing but the socket's wake-on-LAN requests, and
  those only when the socket is not connected: the stored program string, the lines
  written and the value of the power getter stay as they were.
\<close>

theorem power_set_true_frame:
  "power_set True s = (if connected s then s else s\<lparr>wakeOnLAN := wakeOnLAN s + 1\<rparr>)
   \<and> program_get (power_set True s) = program_get s
   \<and> sent (power_set True s) = sent s
   \<and> power_get (power_set True s) = power_get s"
  by (simp add: power_set_def program_get_def power_get_def)

theorem power_set_true_frame_witness:
  "power_set True (constructor False) = (constructor False)\<lparr>wakeOnLAN := 1\<rparr>
   \<and> power_set True (constructor True) = constructor True"
  using power_set_true_frame [of "constructor False"] power_set_true_frame [of "constructor True"]
  by (simp add: constructor_def fields0_def onConnectStateChanged_def changed_def)

subsection \<open>Timers: what each operation does to them\<close>

lemma keyDown_set_Nil: "keyDown_set [] s = s\<lparr>mCurrentKeys := []\<rparr>"
  by (simp add: keyDown_set_def)

lemma timers_cancel: "timers (cancel h s) = filter (\<lambda>t. fst t \<noteq> h) (timers s)"
proof (cases "h \<in> set (map fst (timers s))")
  case True
  then show ?thesis by (simp add: cancel_def)
next
  case False
  then have "\<forall>t\<in>set (timers s). fst t \<noteq> h" by auto
  then have "filter (\<lambda>t. fst t \<noteq> h) (timers s) = timers s"
    by (simp add: filter_id_conv)
  with False show ?thesis by (simp add: cancel_def)
qed

lemma sendCommand_frame:
  "timers (sendCommand c a s) = timers s"
  "timerLog (sendCommand c a s) = timerLog s"
  "mKeyRlsTimer (sendCommand c a s) = mKeyRlsTimer s"
  "nextTimer (sendCommand c a s) = nextTimer s"
  "now (sendCommand c a s) = now s"
  "mCurrentKeys (sendCommand c a s) = mCurrentKeys s"
  by (simp_all add: sendCommand_def Let_def)

lemma cancel_frame:
  "timerLog (cancel h s) =
     timerLog s @ (if h \<in> set (map fst (timers s)) then [Cancelled h] else [])"
  "mKeyRlsTimer (cancel h s) = mKeyRlsTimer s"
  "nextTimer (cancel h s) = nextTimer s"
  "now (cancel h s) = now s"
  "mCurrentKeys (cancel h s) = mCurrentKeys s"
  "sent (cancel h s) = sent s"
  by (simp_all add: cancel_def)

lemma wait_frame:
  "fst (wait ms s) = nextTimer s"
  "timers (snd (wait ms s)) = timers s @ [(nextTimer s, now s + ms)]"
  "timerLog (snd (wait ms s)) = timerLog s @ [Created (nextTimer s) (now s + ms)]"
  "mKeyRlsTimer (snd (wait ms s)) = mKeyRlsTimer s"
  "nextTimer (snd (wait ms s)) = nextTimer s + 1"
  "now (snd (wait ms s)) = now s"
  "mCurrentKeys (snd (wait ms s)) = mCurrentKeys s"
  "sent (snd (wait ms s)) = sent s"
  by (simp_all add: wait_def)

lemma keyDown_set_timers:
  "keys \<noteq> [] \<Longrightarrow>
   timers (keyDown_set keys s) =
     (case mKeyRlsTimer s of None \<Rightarrow> timers s
      | Some h \<Rightarrow> filter (\<lambda>t. fst t \<noteq> h) (timers s))
     @ [(nextTimer s, now s + 200)]"
  by (simp add: keyDown_set_def Let_def case_prod_unfold sendCommand_frame cancel_frame
      timers_cancel wait_frame split: option.splits)

lemma keyDown_set_timerLog:
  "keys \<noteq> [] \<Longrightarrow>
   timerLog (keyDown_set keys s) =
     timerLog s
     @ (case mKeyRlsTimer s of None \<Rightarrow> []
        | Some h \<Rightarrow> if h \<in> set (map fst (timers s)) then [Cancelled h] else [])
     @ [Created (nextTimer s) (now s + 200)]"
  by (simp add: keyDown_set_def Let_def case_prod_unfold sendCommand_frame cancel_frame
      timers_cancel wait_frame split: option.splits)

lemma keyDown_set_handle:
  "keys \<noteq> [] \<Longrightarrow>
   mKeyRlsTimer (keyDown_set keys s) = Some (nextTimer s)
   \<and> nextTimer (keyDown_set keys s) = nextTimer s + 1
   \<and> now (keyDown_set keys s) = now s
   \<and> mCurrentKeys (keyDown_set keys s) = keys"
  by (simp add: keyDown_set_def Let_def case_prod_unfold sendCommand_frame cancel_frame
      timers_cancel wait_frame split: option.splits)

lemma fire_single:
  "timers s = [(h, d)] \<Longrightarrow>
   fire h s = s\<lparr> timers := [], timerLog := timerLog s @ [Fired h (now s)],
                  mCurrentKeys := [], mKeyRlsTimer := None \<rparr>"
  by (simp add: fire_def keyRelease_def keyDown_set_Nil)

lemma tick_idle: "timers s = [] \<Longrightarrow> tick s = s\<lparr>now := now s + 1\<rparr>"
  by (simp add: tick_def Let_def)

lemma tick_early:
  "timers s = [(h, d)] \<Longrightarrow> now s + 1 < d \<Longrightarrow> tick s = s\<lparr>now := now s + 1\<rparr>"
  by (simp add: tick_def Let_def)

lemma tick_due:
  "timers s = [(h, d)] \<Longrightarrow> d \<le> now s + 1 \<Longrightarrow>
   tick s = s\<lparr> now := now s + 1, timers := [],
                 timerLog := timerLog s @ [Fired h (now s + 1)],
                 mCurrentKeys := [], mKeyRlsTimer := None \<rparr>"
  by (simp add: tick_def Let_def fire_single)

lemma advance_idle: "timers s = [] \<Longrightarrow> advance n s = s\<lparr>now := now s + n\<rparr>"
  by (induction n arbitrary: s) (simp_all add: tick_idle)

lemma advance_early:
  "timers s = [(h, d)] \<Longrightarrow> now s + n < d \<Longrightarrow> advance n s = s\<lparr>now := now s + n\<rparr>"
  by (induction n arbitrary: s) (simp_all add: tick_early)

lemma advance_due:
  "timers s = [(h, d)] \<Longrightarrow> now s < d \<Longrightarrow> d \<le> now s + n \<Longrightarrow>
   advance n s = s\<lparr> now := now s + n, timers := [],
                      timerLog := timerLog s @ [Fired h d],
                      mCurrentKeys := [], mKeyRlsTimer := None \<rparr>"
proof (induction n arbitrary: s)
  case 0
  then show ?case by simp
next
  case (Suc n)
  show ?case
  proof (cases "now s + 1 < d")
    case True
    then have t: "tick s = s\<lparr>now := now s + 1\<rparr>"
      using Suc.prems(1) by (simp add: tick_early)
    show ?thesis
      using Suc.IH [of "s\<lparr>now := now s + 1\<rparr>"] Suc.prems True by (simp add: t)
  next
    case False
    with Suc.prems have d: "d = now s + 1" by simp
    have t: "tick s = s\<lparr> now := now s + 1, timers := [],
                 timerLog := timerLog s @ [Fired h (now s + 1)],
                 mCurrentKeys := [], mKeyRlsTimer := None \<rparr>"
      using Suc.prems(1) d by (simp add: tick_due)
    show ?thesis
      by (simp add: t advance_idle d)
  qed
qed

lemma program_set_frame:
  "timers (program_set p s) = timers s"
  "timerLog (program_set p s) = timerLog s"
  "mKeyRlsTimer (program_set p s) = mKeyRlsTimer s"
  "nextTimer (program_set p s) = nextTimer s"
  "now (program_set p s) = now s"
  "mCurrentKeys (program_set p s) = mCurrentKeys s"
  by (simp_all add: program_set_def Let_def sendCommand_frame split: option.splits)

lemma quiet_frame:
  assumes "\<forall>k. a \<noteq> SetKeyDown k" and "a \<noteq> Tick"
  shows "timers (exec a s) = timers s \<and> timerLog (exec a s) = timerLog s
         \<and> mKeyRlsTimer (exec a s) = mKeyRlsTimer s \<and> nextTimer (exec a s) = nextTimer s
         \<and> now (exec a s) = now s \<and> mCurrentKeys (exec a s) = mCurrentKeys s"
proof (cases a)
  case (SetPower b)
  then show ?thesis by (simp add: power_set_def program_set_frame)
next
  case (SetLeftDown b)
  then show ?thesis by (simp add: leftDown_set_def sendMouseButtonState_def sendCommand_frame)
next
  case (SetRightDown b)
  then show ?thesis by (simp add: rightDown_set_def sendMouseButtonState_def sendCommand_frame)
next
  case (MoveMouse x y)
  then show ?thesis by (simp add: moveMouse_def sendCommand_frame)
next
  case (SetProgram p)
  then show ?thesis by (simp add: program_set_frame)
next
  case (SetKeyDown k)
  with assms show ?thesis by simp
next
  case (ConnectMessage t)
  then show ?thesis by (simp add: connectListener_def onConnectStateChanged_def changed_def)
next
  case (SocketConnected c)
  then show ?thesis by simp
next
  case Tick
  with assms show ?thesis by simp
qed


lemma pending_step:
  assumes "timers s = [(h, D)]"
    and "a = Tick \<longrightarrow> now s + 1 < D"
    and "\<forall>k. a = SetKeyDown k \<longrightarrow> k = []"
  shows "timers (exec a s) = timers s \<and> timerLog (exec a s) = timerLog s
         \<and> mKeyRlsTimer (exec a s) = mKeyRlsTimer s \<and> nextTimer (exec a s) = nextTimer s
         \<and> now (exec a s) = now s + (if a = Tick then 1 else 0)"
proof (cases "(\<exists>k. a = SetKeyDown k) \<or> a = Tick")
  case True
  then consider (key) "a = SetKeyDown []" | (tick) "a = Tick"
    using assms(3) by auto
  then show ?thesis
  proof cases
    case key
    then show ?thesis by (simp add: keyDown_set_Nil)
  next
    case tick
    with assms(2) have "now s + 1 < D" by simp
    from tick_early [OF assms(1) this] tick show ?thesis by simp
  qed
next
  case False
  then have q: "\<forall>k. a \<noteq> SetKeyDown k" "a \<noteq> Tick" by auto
  from quiet_frame [OF q, of s] q(2) show ?thesis by simp
qed


lemma timer_ok_iff:
  "timer_ok s \<longleftrightarrow>
     (mKeyRlsTimer s = None \<and> timers s = [])
     \<or> (\<exists>h d. mKeyRlsTimer s = Some h \<and> timers s = [(h, d)] \<and> h < nextTimer s
            \<and> now s < d \<and> d \<le> now s + 200)"
  by (auto simp: timer_ok_def split: option.splits list.splits)

lemma timer_ok_frame:
  "timers s' = timers s \<Longrightarrow> mKeyRlsTimer s' = mKeyRlsTimer s \<Longrightarrow>
   nextTimer s' = nextTimer s \<Longrightarrow> now s' = now s \<Longrightarrow> timer_ok s' = timer_ok s"
  by (simp add: timer_ok_iff)

lemma timer_ok_constructor: "timer_ok (constructor c)"
  by (simp add: timer_ok_iff constructor_eq)

lemma timer_ok_keyDown_set:
  assumes "timer_ok s"
  shows "timer_ok (keyDown_set k s)"
proof (cases "k = []")
  case True
  have "timer_ok (s\<lparr>mCurrentKeys := []\<rparr>) = timer_ok s"
    by (rule timer_ok_frame) simp_all
  with assms True show ?thesis by (simp add: keyDown_set_Nil)
next
  case False
  from assms have "timers (keyDown_set k s) = [(nextTimer s, now s + 200)]"
    using False by (auto simp: keyDown_set_timers timer_ok_iff)
  then show ?thesis
    using keyDown_set_handle [OF False, of s] by (simp add: timer_ok_iff)
qed

lemma timer_ok_tick:
  assumes "timer_ok s"
  shows "timer_ok (tick s)"
proof -
  from assms consider
      (idle) "mKeyRlsTimer s = None" "timers s = []"
    | (pending) h d where "mKeyRlsTimer s = Some h" "timers s = [(h, d)]"
        "h < nextTimer s" "now s < d" "d \<le> now s + 200"
    by (auto simp: timer_ok_iff)
  then show ?thesis
  proof cases
    case idle
    then show ?thesis by (simp add: tick_idle timer_ok_iff)
  next
    case pending
    show ?thesis
    proof (cases "now s + 1 < d")
      case True
      with pending show ?thesis by (simp add: tick_early timer_ok_iff)
    next
      case False
      then have "d \<le> now s + 1" by simp
      with pending show ?thesis by (simp add: tick_due timer_ok_iff)
    qed
  qed
qed

lemma timer_ok_exec:
  assumes "timer_ok s"
  shows "timer_ok (exec a s)"
proof (cases "(\<exists>k. a = SetKeyDown k) \<or> a = Tick")
  case True
  with assms show ?thesis by (auto simp: timer_ok_keyDown_set timer_ok_tick)
next
  case False
  then have "\<forall>k. a \<noteq> SetKeyDown k" "a \<noteq> Tick" by auto
  from quiet_frame [OF this, of s] have "timer_ok (exec a s) = timer_ok s"
    by (intro timer_ok_frame) simp_all
  with assms show ?thesis by simp
qed

lemma reachable_timer_ok: "reachable s \<Longrightarrow> timer_ok s"
  by (induction rule: reachable.induct) (simp_all add: timer_ok_constructor timer_ok_exec)

lemma timer_ok_length: "timer_ok s \<Longrightarrow> length (timers s) \<le> 1"
  by (auto simp: timer_ok_iff)

lemma reachable_fold: "reachable s \<Longrightarrow> reachable (fold exec as s)"
  by (induction as arbitrary: s) (simp_all add: reachable.step)

lemma reachable_advance: "reachable s \<Longrightarrow> reachable (advance n s)"
proof (induction n arbitrary: s)
  case 0
  then show ?case by simp
next
  case (Suc n)
  from reachable.step [OF Suc.prems, of Tick] have "reachable (tick s)" by simp
  then show ?case by (simp add: Suc.IH)
qed

lemma pending_run:
  assumes "timers s = [(h, D)]"
    and "now s + count_list as Tick < D"
    and "\<forall>a\<in>set as. \<forall>k. a = SetKeyDown k \<longrightarrow> k = []"
  shows "timers (fold exec as s) = timers s \<and> timerLog (fold exec as s) = timerLog s
         \<and> mKeyRlsTimer (fold exec as s) = mKeyRlsTimer s
         \<and> nextTimer (fold exec as s) = nextTimer s
         \<and> now (fold exec as s) = now s + count_list as Tick"
  using assms
proof (induction as arbitrary: s)
  case Nil
  then show ?case by simp
next
  case (Cons a as)
  have tick: "a = Tick \<longrightarrow> now s + 1 < D"
    using Cons.prems(2) by auto
  have quiet: "\<forall>k. a = SetKeyDown k \<longrightarrow> k = []"
    using Cons.prems(3) by simp
  note st = pending_step [OF Cons.prems(1) tick quiet]
  have t': "timers (exec a s) = [(h, D)]"
    using st Cons.prems(1) by simp
  have n': "now (exec a s) + count_list as Tick < D"
    using st Cons.prems(2) by (simp split: if_splits)
  have q': "\<forall>a\<in>set as. \<forall>k. a = SetKeyDown k \<longrightarrow> k = []"
    using Cons.prems(3) by simp
  note ih = Cons.IH [OF t' n' q']
  show ?case
    using st ih by (simp split: if_splits)
qed

lemma keyRelease_timerLog: "timerLog (keyRelease s) = timerLog s"
  by (simp add: keyRelease_def keyDown_set_Nil)

lemma fire_timerLog:
  "timerLog (fire h s) =
     timerLog s @ (if h \<in> set (map fst (timers s)) then [Fired h (now s)] else [])"
  by (simp add: fire_def keyRelease_timerLog)

lemma fold_fire_timerLog:
  "\<exists>fs. timerLog (fold fire hs s) = timerLog s @ fs \<and> (\<forall>ev\<in>set fs. \<exists>h t. ev = Fired h t)"
proof (induction hs arbitrary: s)
  case Nil
  then show ?case by simp
next
  case (Cons h hs)
  from Cons.IH [of "fire h s"] obtain fs where
    fs: "timerLog (fold fire hs (fire h s)) = timerLog (fire h s) @ fs"
      "\<forall>ev\<in>set fs. \<exists>h t. ev = Fired h t"
    by blast
  let ?f = "if h \<in> set (map fst (timers s)) then [Fired h (now s)] else []"
  have "timerLog (fold fire (h # hs) s) = timerLog s @ (?f @ fs)"
    using fs(1) by (simp add: fire_timerLog)
  moreover have "\<forall>ev\<in>set (?f @ fs). \<exists>h t. ev = Fired h t"
    using fs(2) by auto
  ultimately show ?case by blast
qed

lemma tick_timerLog:
  "\<exists>fs. timerLog (tick s) = timerLog s @ fs \<and> (\<forall>ev\<in>set fs. \<exists>h t. ev = Fired h t)"
proof -
  let ?s1 = "s\<lparr>now := now s + 1\<rparr>"
  from fold_fire_timerLog [of "map fst (filter (\<lambda>t. snd t \<le> now ?s1) (timers ?s1))" ?s1]
  show ?thesis by (simp add: tick_def Let_def)
qed

lemma only_fired:
  assumes "\<forall>k. a = SetKeyDown k \<longrightarrow> k = []"
  shows "\<exists>fs. timerLog (exec a s) = timerLog s @ fs \<and> (\<forall>ev\<in>set fs. \<exists>h t. ev = Fired h t)"
proof (cases "(\<exists>k. a = SetKeyDown k) \<or> a = Tick")
  case True
  then consider (key) "a = SetKeyDown []" | (tick) "a = Tick"
    using assms by auto
  then show ?thesis
  proof cases
    case key
    then show ?thesis by (simp add: keyDown_set_Nil)
  next
    case tick
    then show ?thesis using tick_timerLog [of s] by simp
  qed
next
  case False
  then have q: "\<forall>k. a \<noteq> SetKeyDown k" "a \<noteq> Tick" by auto
  from quiet_frame [OF q, of s] show ?thesis by simp
qed

subsection \<open>Key presses\<close>

lemma sent_keyDown_set:
  "keys \<noteq> [] \<Longrightarrow>
   sent (keyDown_set keys s) =
     sent s @ [''KeyPress '' @ join '' ''
       [index (split (CHR ''+'') keys) (length (split (CHR ''+'') keys) - 1),
        (if length (split (CHR ''+'') keys) > 1 then
           fold (\<lambda>modifier sum. js_plus sum (js_or (modifierValues modifier) (Num 0)))
             (slice 0 (length (split (CHR ''+'') keys) - 1) (split (CHR ''+'') keys)) (Num 0)
         else Num 0)]]"
  by (simp add: keyDown_set_def Let_def case_prod_unfold sent_sendCommand cancel_frame
      wait_frame split: option.splits)

lemma modifier_fold_known:
  "\<forall>m\<in>set ms. m \<notin> set (map fst objectPrototype) \<Longrightarrow>
   fold (\<lambda>modifier sum. js_plus sum (js_or (modifierValues modifier) (Num 0))) ms (Num a) =
     Num (a + sum_list (map (\<lambda>m. case map_of modifierTable m of Some n \<Rightarrow> n | None \<Rightarrow> 0) ms))"
proof (induction ms arbitrary: a)
  case Nil
  then show ?case by simp
next
  case (Cons m ms)
  have known: "m \<notin> set (map fst objectPrototype)" using Cons.prems by simp
  have step: "js_plus (Num a) (js_or (modifierValues m) (Num 0)) =
      Num (a + (case map_of modifierTable m of Some n \<Rightarrow> n | None \<Rightarrow> 0))"
  proof (cases "map_of modifierTable m")
    case None
    with known show ?thesis by (simp add: modifierValues_def js_or_def js_plus_def)
  next
    case (Some n)
    then have "n \<noteq> 0" by (auto simp: modifierTable_def split: if_splits)
    with Some show ?thesis by (simp add: modifierValues_def js_or_def js_plus_def)
  qed
  from Cons.prems have "\<forall>m\<in>set ms. m \<notin> set (map fst objectPrototype)" by simp
  from Cons.IH [OF this] step show ?case by (simp add: add.assoc)
qed

lemma keyDown_set_known_modifiers:
  assumes "keys \<noteq> []"
    and "\<forall>m\<in>set (butlast (split (CHR ''+'') keys)). m \<notin> set (map fst objectPrototype)"
  shows "sent (keyDown_set keys s) =
     sent s @ [''KeyPress '' @ last (split (CHR ''+'') keys) @ '' ''
       @ show_int (sum_list (map (\<lambda>m. case map_of modifierTable m of Some n \<Rightarrow> n | None \<Rightarrow> 0)
            (butlast (split (CHR ''+'') keys))))]"
proof -
  let ?kp = "split (CHR ''+'') keys"
  have ne: "?kp \<noteq> []" by (rule split_not_Nil)
  then have key: "index ?kp (length ?kp - 1) = Str (last ?kp)"
    by (simp add: index_def last_conv_nth)
  have sl: "slice 0 (length ?kp - 1) ?kp = butlast ?kp"
    by (simp add: slice_def butlast_conv_take)
  have known: "fold (\<lambda>modifier sum. js_plus sum (js_or (modifierValues modifier) (Num 0)))
      (butlast ?kp) (Num 0) =
      Num (0 + sum_list (map (\<lambda>m. case map_of modifierTable m of Some n \<Rightarrow> n | None \<Rightarrow> 0)
        (butlast ?kp)))"
    by (rule modifier_fold_known [OF assms(2)])
  have sum: "(if length ?kp > 1 then
           fold (\<lambda>modifier sum. js_plus sum (js_or (modifierValues modifier) (Num 0)))
             (slice 0 (length ?kp - 1) ?kp) (Num 0)
         else Num 0) =
      Num (sum_list (map (\<lambda>m. case map_of modifierTable m of Some n \<Rightarrow> n | None \<Rightarrow> 0)
        (butlast ?kp)))"
  proof (cases "length ?kp > 1")
    case True
    then show ?thesis unfolding sl known by simp
  next
    case False
    with ne have "butlast ?kp = []" by (cases ?kp) auto
    with False show ?thesis by simp
  qed
  show ?thesis
    unfolding sent_keyDown_set [OF assms(1)] key sum by simp
qed

text \<open>
  C5. The claim: the modifiers before the last token are summed from the table, a token
  the table does not have counts 0, and one \<open>KeyPress key sum\<close> is sent. That holds
  for \<open>shift+control+a\<close>, and for every input whose modifier tokens are not names of
  members of \<open>Object.prototype\<close> (\<open>keyDown_set_known_modifiers\<close>). The table is an
  object literal, so \<open>modifierValues['toString']\<close> is the inherited function, which
  is truthy: \<open>|| 0\<close> lets it through and \<open>+=\<close> turns the sum into a text.
\<close>

theorem keyDown_inherited_modifier_example:
  "sent (keyDown_set ''toString+a'' (constructor True)) =
     [''KeyPress a 0function toString() { [native code] }'']
   \<and> sent (keyDown_set ''shift+control+a'' (constructor True)) = [''KeyPress a 3'']"
  by code_simp

subsection \<open>The release timer\<close>

text \<open>
  C6. A session reached by any run gets two non-empty keyDown writes; between them pass
  fewer than 200 time units and any operations other than a non-empty keyDown write.
  The timer of the first write is still live when the second write arrives; the second
  write cancels it and then creates its own, due 200 time units after the second write,
  and that one is the only live timer. If time then passes, the log of the timers gains
  nothing before 200 time units and exactly one firing after them, at the due time of
  the second timer; once fired, keyDown reads as the empty string, the timer field is
  clear and nothing has been sent. In every reachable session at most one timer is live.
\<close>

theorem keyDown_rapid_writes:
  assumes "reachable s" and "k1 \<noteq> []" and "k2 \<noteq> []"
    and "\<forall>a\<in>set as. \<forall>k. a = SetKeyDown k \<longrightarrow> k = []"
    and "count_list as Tick < 200"
  shows "let h1 = nextTimer s; h2 = nextTimer s + 1;
             s1 = fold exec as (keyDown_set k1 s);
             s2 = keyDown_set k2 s1;
             s3 = advance e s2
         in timers s1 = [(h1, now s + 200)]
          \<and> timerLog s1 =
              timerLog s
              @ (case mKeyRlsTimer s of None \<Rightarrow> [] | Some h0 \<Rightarrow> [Cancelled h0])
              @ [Created h1 (now s + 200)]
          \<and> now s2 = now s + count_list as Tick
          \<and> timerLog s2 = timerLog s1 @ [Cancelled h1, Created h2 (now s2 + 200)]
          \<and> timers s2 = [(h2, now s2 + 200)]
          \<and> mKeyRlsTimer s2 = Some h2
          \<and> timerLog s3 = timerLog s2 @ (if e < 200 then [] else [Fired h2 (now s2 + 200)])
          \<and> (200 \<le> e \<longrightarrow>
               keyDown_get s3 = [] \<and> mKeyRlsTimer s3 = None \<and> timers s3 = []
               \<and> sent s3 = sent s2)
          \<and> (reachable x \<longrightarrow> length (timers x) \<le> 1)"
proof -
  define h1 where "h1 = nextTimer s"
  define D where "D = now s + 200"
  define s0 where "s0 = keyDown_set k1 s"
  define s1 where "s1 = fold exec as s0"
  define s2 where "s2 = keyDown_set k2 s1"
  define s3 where "s3 = advance e s2"
  from assms(1) have ok: "timer_ok s" by (rule reachable_timer_ok)
  have t0: "timers s0 = [(h1, D)]"
    using ok assms(2) by (auto simp: s0_def h1_def D_def keyDown_set_timers timer_ok_iff)
  have l0: "timerLog s0 =
      timerLog s @ (case mKeyRlsTimer s of None \<Rightarrow> [] | Some h0 \<Rightarrow> [Cancelled h0])
      @ [Created h1 D]"
    using ok assms(2) by (auto simp: s0_def h1_def D_def keyDown_set_timerLog timer_ok_iff)
  have f0: "mKeyRlsTimer s0 = Some h1" "nextTimer s0 = h1 + 1" "now s0 = now s"
    using keyDown_set_handle [OF assms(2), of s] by (simp_all add: s0_def h1_def)
  have early: "now s0 + count_list as Tick < D"
    using assms(5) by (simp add: f0 D_def)
  note run = pending_run [OF t0 early assms(4)]
  have t1: "timers s1 = [(h1, D)]" and l1: "timerLog s1 = timerLog s0"
    and f1: "mKeyRlsTimer s1 = Some h1" "nextTimer s1 = h1 + 1"
      "now s1 = now s + count_list as Tick"
    using run t0 f0 by (simp_all add: s1_def)
  have t2: "timers s2 = [(h1 + 1, now s1 + 200)]"
    by (simp add: s2_def keyDown_set_timers [OF assms(3)] f1 t1)
  have l2: "timerLog s2 = timerLog s1 @ [Cancelled h1, Created (h1 + 1) (now s1 + 200)]"
    by (simp add: s2_def keyDown_set_timerLog [OF assms(3)] f1 t1)
  have f2: "mKeyRlsTimer s2 = Some (h1 + 1)" "now s2 = now s1"
    using keyDown_set_handle [OF assms(3), of s1] by (simp_all add: s2_def f1)
  have l3: "timerLog s3 = timerLog s2 @ (if e < 200 then [] else [Fired (h1 + 1) (now s2 + 200)])"
  proof (cases "e < 200")
    case True
    then have "now s2 + e < now s1 + 200" by (simp add: f2)
    from advance_early [OF t2 this] True show ?thesis by (simp add: s3_def)
  next
    case False
    then have "now s2 < now s1 + 200" "now s1 + 200 \<le> now s2 + e" by (simp_all add: f2)
    from advance_due [OF t2 this] False show ?thesis by (simp add: s3_def f2)
  qed
  have after: "keyDown_get s3 = [] \<and> mKeyRlsTimer s3 = None \<and> timers s3 = []
               \<and> sent s3 = sent s2" if "200 \<le> e"
  proof -
    from that have "now s2 < now s1 + 200" "now s1 + 200 \<le> now s2 + e" by (simp_all add: f2)
    from advance_due [OF t2 this] show ?thesis by (simp add: s3_def keyDown_get_def)
  qed
  have one: "length (timers x) \<le> 1" if "reachable x"
    using that by (intro timer_ok_length reachable_timer_ok)
  have "timers s1 = [(h1, now s + 200)]
          \<and> timerLog s1 =
              timerLog s
              @ (case mKeyRlsTimer s of None \<Rightarrow> [] | Some h0 \<Rightarrow> [Cancelled h0])
              @ [Created h1 (now s + 200)]
          \<and> now s2 = now s + count_list as Tick
          \<and> timerLog s2 = timerLog s1 @ [Cancelled h1, Created (h1 + 1) (now s2 + 200)]
          \<and> timers s2 = [(h1 + 1, now s2 + 200)]
          \<and> mKeyRlsTimer s2 = Some (h1 + 1)
          \<and> timerLog s3 = timerLog s2 @ (if e < 200 then [] else [Fired (h1 + 1) (now s2 + 200)])
          \<and> (200 \<le> e \<longrightarrow>
               keyDown_get s3 = [] \<and> mKeyRlsTimer s3 = None \<and> timers s3 = []
               \<and> sent s3 = sent s2)
          \<and> (reachable x \<longrightarrow> length (timers x) \<le> 1)"
    using t1 l0 l1 f1 l2 t2 f2 l3 after one by (simp add: D_def)
  then show ?thesis
    unfolding Let_def h1_def s0_def s1_def s2_def s3_def .
qed

theorem keyDown_rapid_writes_witness:
  "count_list [Tick, SetKeyDown [], Tick, SetProgram ''x''] Tick < 200
   \<and> timerLog (advance 200 (keyDown_set ''shift+b''
        (fold exec [Tick, SetKeyDown [], Tick, SetProgram ''x'']
          (keyDown_set ''a'' (constructor True))))) =
       [Created 0 200, Cancelled 0, Created 1 202, Fired 1 202]
   \<and> timers (advance 200 (keyDown_set ''shift+b''
        (fold exec [Tick, SetKeyDown [], Tick, SetProgram ''x'']
          (keyDown_set ''a'' (constructor True))))) = []
   \<and> length (timers (keyDown_set ''a'' (constructor True))) \<le> 1"
proof -
  let ?as = "[Tick, SetKeyDown [], Tick, SetProgram ''x'']"
  have r: "reachable (keyDown_set ''a'' (constructor True))"
    using reachable.step [OF reachable.start, of "SetKeyDown ''a''" True] by simp
  have q: "\<forall>a\<in>set ?as. \<forall>k. a = SetKeyDown k \<longrightarrow> k = []" by simp
  have c: "count_list ?as Tick < 200" by simp
  have k1: "''a'' \<noteq> []" and k2: "''shift+b'' \<noteq> []" by simp_all
  note inst = keyDown_rapid_writes [OF reachable.start k1 k2 q c,
      of True 200 "keyDown_set ''a'' (constructor True)", unfolded Let_def]
  from inst have
    l1: "timerLog (fold exec ?as (keyDown_set ''a'' (constructor True))) =
          timerLog (constructor True)
          @ (case mKeyRlsTimer (constructor True) of None \<Rightarrow> [] | Some h0 \<Rightarrow> [Cancelled h0])
          @ [Created (nextTimer (constructor True)) (now (constructor True) + 200)]"
    and n2: "now (keyDown_set ''shift+b'' (fold exec ?as (keyDown_set ''a'' (constructor True)))) =
          now (constructor True) + count_list ?as Tick"
    and l2: "timerLog (keyDown_set ''shift+b'' (fold exec ?as (keyDown_set ''a'' (constructor True)))) =
          timerLog (fold exec ?as (keyDown_set ''a'' (constructor True)))
          @ [Cancelled (nextTimer (constructor True)),
             Created (nextTimer (constructor True) + 1)
               (now (keyDown_set ''shift+b'' (fold exec ?as (keyDown_set ''a'' (constructor True)))) + 200)]"
    and l3: "timerLog (advance 200 (keyDown_set ''shift+b'' (fold exec ?as (keyDown_set ''a'' (constructor True))))) =
          timerLog (keyDown_set ''shift+b'' (fold exec ?as (keyDown_set ''a'' (constructor True))))
          @ (if (200::nat) < 200 then []
             else [Fired (nextTimer (constructor True) + 1)
               (now (keyDown_set ''shift+b'' (fold exec ?as (keyDown_set ''a'' (constructor True)))) + 200)])"
    and t3: "(200::nat) \<le> 200 \<longrightarrow> timers (advance 200 (keyDown_set ''shift+b'' (fold exec ?as (keyDown_set ''a'' (constructor True))))) = []"
    and one: "reachable (keyDown_set ''a'' (constructor True)) \<longrightarrow>
          length (timers (keyDown_set ''a'' (constructor True))) \<le> 1"
    by blast+
  have "timerLog (advance 200 (keyDown_set ''shift+b'' (fold exec ?as (keyDown_set ''a'' (constructor True))))) =
       [Created 0 200, Cancelled 0, Created 1 202, Fired 1 202]"
    unfolding l3 l2 n2 l1 by (simp add: constructor_eq)
  with c t3 one r show ?thesis by simp
qed

text \<open>
  C10. While a release timer is pending, writing the empty string to keyDown only stores
  the empty string: the timer stays live and referenced, nothing is logged or sent. When
  its time comes the timer fires, keyDown is set to the empty string again and the timer
  field is cleared. A later non-empty write cancels the pending timer and starts a new
  one; no other operation cancels or creates a timer.
\<close>

theorem keyDown_empty_keeps_timer:
  assumes "reachable s" and "(h, due) \<in> set (timers s)"
  shows "keyDown_set [] s = s\<lparr>mCurrentKeys := []\<rparr>
       \<and> timers (keyDown_set [] s) = [(h, due)]
       \<and> mKeyRlsTimer (keyDown_set [] s) = Some h
       \<and> timerLog (keyDown_set [] s) = timerLog s
       \<and> sent (keyDown_set [] s) = sent s
       \<and> now s < due
       \<and> advance (due - now s) (keyDown_set [] s) =
           s\<lparr> now := due, timers := [], timerLog := timerLog s @ [Fired h due],
              mCurrentKeys := [], mKeyRlsTimer := None \<rparr>
       \<and> (k \<noteq> [] \<longrightarrow>
            timerLog (keyDown_set k (keyDown_set [] s)) =
              timerLog s @ [Cancelled h, Created (nextTimer s) (now s + 200)])
       \<and> ((\<forall>k. a = SetKeyDown k \<longrightarrow> k = []) \<longrightarrow>
            (\<exists>fs. timerLog (exec a x) = timerLog x @ fs
                  \<and> (\<forall>ev\<in>set fs. \<exists>h' t. ev = Fired h' t)))"
proof -
  let ?s' = "keyDown_set [] s"
  from assms(1) have "timer_ok s" by (rule reachable_timer_ok)
  with assms(2) have p: "mKeyRlsTimer s = Some h" "timers s = [(h, due)]" "now s < due"
    by (auto simp: timer_ok_iff)
  have e: "?s' = s\<lparr>mCurrentKeys := []\<rparr>" by (rule keyDown_set_Nil)
  have t': "timers ?s' = [(h, due)]" using p by (simp add: e)
  have n': "now ?s' < due" using p by (simp add: e)
  have d': "due \<le> now ?s' + (due - now s)" using p by (simp add: e)
  have adv: "advance (due - now s) ?s' =
           s\<lparr> now := due, timers := [], timerLog := timerLog s @ [Fired h due],
              mCurrentKeys := [], mKeyRlsTimer := None \<rparr>"
    using p(3) by (simp add: advance_due [OF t' n' d']) (simp add: e)
  have restart: "timerLog (keyDown_set k ?s') =
              timerLog s @ [Cancelled h, Created (nextTimer s) (now s + 200)]" if "k \<noteq> []"
    using p by (simp add: keyDown_set_timerLog [OF that]) (simp add: e)
  have quiet: "\<exists>fs. timerLog (exec a x) = timerLog x @ fs
                  \<and> (\<forall>ev\<in>set fs. \<exists>h' t. ev = Fired h' t)"
    if "\<forall>k. a = SetKeyDown k \<longrightarrow> k = []"
    using only_fired [OF that] .
  show ?thesis
    using p adv restart quiet by (simp add: e)
qed

theorem keyDown_empty_keeps_timer_witness:
  "(0, 200) \<in> set (timers (keyDown_set ''a'' (constructor True)))
   \<and> mKeyRlsTimer (keyDown_set [] (keyDown_set ''a'' (constructor True))) = Some 0
   \<and> timers (keyDown_set [] (keyDown_set ''a'' (constructor True))) = [(0, 200)]
   \<and> timerLog (advance 200 (keyDown_set [] (keyDown_set ''a'' (constructor True)))) =
       [Created 0 200, Fired 0 200]
   \<and> mKeyRlsTimer (advance 200 (keyDown_set [] (keyDown_set ''a'' (constructor True)))) = None
   \<and> timerLog (keyDown_set ''b'' (keyDown_set [] (keyDown_set ''a'' (constructor True)))) =
       [Created 0 200, Cancelled 0, Created 1 200]
   \<and> (\<exists>fs. timerLog (exec Tick (constructor False)) = timerLog (constructor False) @ fs
          \<and> (\<forall>ev\<in>set fs. \<exists>h' t. ev = Fired h' t))"
proof -
  let ?s = "keyDown_set ''a'' (constructor True)"
  have r: "reachable ?s"
    using reachable.step [OF reachable.start, of "SetKeyDown ''a''" True] by simp
  have t: "timers ?s = [(0, 200)]"
    by (simp add: keyDown_set_timers constructor_eq)
  have m: "(0, 200) \<in> set (timers ?s)"
    by (simp add: t)
  have n: "now ?s = 0" "nextTimer ?s = 1"
    using keyDown_set_handle [of "''a''" "constructor True"] by (simp_all add: constructor_eq)
  have l: "timerLog ?s = [Created 0 200]"
    by (simp add: keyDown_set_timerLog constructor_eq)
  have b: "''b'' \<noteq> []" by simp
  have a: "\<forall>k. Tick = SetKeyDown k \<longrightarrow> k = []" by simp
  note inst = keyDown_empty_keeps_timer [OF r m, of "''b''" Tick "constructor False"]
  from inst have adv: "advance (200 - now ?s) (keyDown_set [] ?s) =
           ?s\<lparr> now := 200, timers := [], timerLog := timerLog ?s @ [Fired 0 200],
              mCurrentKeys := [], mKeyRlsTimer := None \<rparr>"
    by blast
  from inst b have re: "timerLog (keyDown_set ''b'' (keyDown_set [] ?s)) =
              timerLog ?s @ [Cancelled 0, Created (nextTimer ?s) (now ?s + 200)]"
    by blast
  from inst have keep: "timers (keyDown_set [] ?s) = [(0, 200)]"
      "mKeyRlsTimer (keyDown_set [] ?s) = Some 0"
    by blast+
  from adv have adv': "advance 200 (keyDown_set [] ?s) =
           ?s\<lparr> now := 200, timers := [], timerLog := timerLog ?s @ [Fired 0 200],
              mCurrentKeys := [], mKeyRlsTimer := None \<rparr>"
    by (simp add: n)
  from inst a have only: "\<exists>fs. timerLog (exec Tick (constructor False)) =
        timerLog (constructor False) @ fs \<and> (\<forall>ev\<in>set fs. \<exists>h' t. ev = Fired h' t)"
    by blast
  have "(0, 200) \<in> set (timers ?s)
     \<and> mKeyRlsTimer (keyDown_set [] ?s) = Some 0
     \<and> timers (keyDown_set [] ?s) = [(0, 200)]
     \<and> timerLog (advance 200 (keyDown_set [] ?s)) = [Created 0 200, Fired 0 200]
     \<and> mKeyRlsTimer (advance 200 (keyDown_set [] ?s)) = None
     \<and> timerLog (keyDown_set ''b'' (keyDown_set [] ?s)) =
         [Created 0 200, Cancelled 0, Created 1 200]"
    by (simp add: m keep adv' re l n)
  with only show ?thesis by blast
qed

end
